theory Spec2Isabelle
  imports Main
begin

section \<open>Records: objects with string keys\<close>

text \<open>
  \<^verbatim>\<open>StepInput\<close> and \<^verbatim>\<open>StepOutput\<close> are objects indexed by strings. An object is
  modelled by the list of its own entries, in the order in which \<^verbatim>\<open>Object.entries\<close>
  and the spread syntax visit them; the keys of an object are pairwise distinct
  (\<open>wf_obj\<close>). The values are kept abstract (\<open>'v\<close>).

  A record is its own entries. The members that an object inherits from
  \<^verbatim>\<open>Object.prototype\<close> are modelled where the source reaches them: in \<^verbatim>\<open>mapOutputs\<close>,
  which reads the output map and assigns to the mapped record by computed keys. The
  spread syntax and \<^verbatim>\<open>Object.entries\<close> see own entries only. The text written by the
  logger is outside the model.
\<close>

type_synonym 'v obj = "(string \<times> 'v) list"

definition wf_obj :: "'v obj \<Rightarrow> bool" where
  "wf_obj ps = distinct (map fst ps)"

definition has_key :: "'v obj \<Rightarrow> string \<Rightarrow> bool" where
  "has_key ps k = (k \<in> fst ` set ps)"

text \<open>
  The order of the own keys of an object: the keys that are array indices (canonical
  decimal numerals below \<open>2^32 - 1\<close>) come first, ascending, and the other keys follow
  in the order of their creation.
\<close>

definition is_digit :: "char \<Rightarrow> bool" where
  "is_digit c = (c \<in> set ''0123456789'')"

definition digit_value :: "char \<Rightarrow> int" where
  "digit_value c = of_char c - 48"

definition numeric_value :: "string \<Rightarrow> int" where
  "numeric_value k = fold (\<lambda>c n. 10 * n + digit_value c) k 0"

definition is_array_index :: "string \<Rightarrow> bool" where
  "is_array_index k =
     (case k of
        [] \<Rightarrow> False
      | c # cs \<Rightarrow>
          list_all is_digit k \<and> (if c = CHR ''0'' then cs = [] else True)
          \<and> numeric_value k < 4294967295)"

fun insert_index :: "string \<Rightarrow> 'v \<Rightarrow> 'v obj \<Rightarrow> 'v obj" where
  "insert_index k v [] = [(k, v)]"
| "insert_index k v ((k', v') # ps) =
     (if is_array_index k' \<and> numeric_value k' < numeric_value k
      then (k', v') # insert_index k v ps
      else (k, v) # (k', v') # ps)"

fun overwrite :: "string \<Rightarrow> 'v \<Rightarrow> 'v obj \<Rightarrow> 'v obj" where
  "overwrite k v [] = []"
| "overwrite k v ((k', v') # ps) =
     (if k' = k then (k, v) # ps else (k', v') # overwrite k v ps)"

text \<open>
  \<^verbatim>\<open>obj[k] = v\<close>: an existing property keeps its place and takes the new value, a new
  one is created.
\<close>

definition set_prop :: "string \<Rightarrow> 'v \<Rightarrow> 'v obj \<Rightarrow> 'v obj" where
  "set_prop k v ps =
     (if has_key ps k then overwrite k v ps
      else if is_array_index k then insert_index k v ps
      else ps @ [(k, v)])"

text \<open>
  \<^verbatim>\<open>{ ...a, ...b }\<close> is \<open>spread (spread [] a) b\<close>: the entries of the source are
  copied into the target one by one, in order.
\<close>

definition spread :: "'v obj \<Rightarrow> 'v obj \<Rightarrow> 'v obj" where
  "spread target source = fold (\<lambda>(k, v). set_prop k v) source target"

section \<open>The step\<close>

text \<open>
  The fields of \<^verbatim>\<open>Step\<close>. A call record is an object whose fields (\<^verbatim>\<open>inputs\<close>,
  \<^verbatim>\<open>outputs\<close>) hold values of type \<open>'c\<close>; \<^verbatim>\<open>run\<close> stores records there. A schema
  is an opaque value of type \<open>'s\<close>; an absent optional field is \<open>None\<close>.
\<close>

record ('c, 's) Step =
  name :: string
  outputMap :: "string obj option"
  inputsSchema :: "'s option"
  outputsSchema :: "'s option"
  calls :: "'c obj list"

record ('st, 'v) RunStepArgs =
  steps :: 'st
  inputs :: "'v obj"

text \<open>
  What a method throws: the \<^verbatim>\<open>Error\<close> of the base class with its message, or whatever
  the delegated computation \<^verbatim>\<open>_run\<close> threw.
\<close>

datatype 'e error = Error string | Thrown 'e

definition constructor :: "string \<Rightarrow> string obj option \<Rightarrow> ('c, 's) Step" where
  "constructor nm om =
     \<lparr>name = nm, outputMap = om, inputsSchema = None, outputsSchema = None, calls = []\<rparr>"

text \<open>
  The two setters store the schema and return \<^verbatim>\<open>this\<close>: the first component is the
  returned object, the second the state of the step after the call.
\<close>

definition inputs_setter :: "'s \<Rightarrow> ('c, 's) Step \<Rightarrow> ('c, 's) Step \<times> ('c, 's) Step" where
  "inputs_setter schema this =
     (let this' = this\<lparr>inputsSchema := Some schema\<rparr> in (this', this'))"

definition outputs_setter :: "'s \<Rightarrow> ('c, 's) Step \<Rightarrow> ('c, 's) Step \<times> ('c, 's) Step" where
  "outputs_setter schema this =
     (let this' = this\<lparr>outputsSchema := Some schema\<rparr> in (this', this'))"

text \<open>
  \<^verbatim>\<open>recordCall(args, updatePrev)\<close>. The result is what the call returned or threw,
  paired with the state of the step afterwards.
\<close>

definition recordCall ::
  "'c obj \<Rightarrow> bool \<Rightarrow> ('c, 's) Step \<Rightarrow> ('e error + unit) \<times> ('c, 's) Step" where
  "recordCall args updatePrev this =
     (if updatePrev then
        (if length (calls this) = 0
         then (Inl (Error ''Cannot update last call, calls length is 0''), this)
         else
           (let prev = calls this ! (length (calls this) - 1);
                call = spread (spread [] prev) args
            in (Inr (), this\<lparr>calls := (calls this)[length (calls this) - 1 := call]\<rparr>)))
      else (Inr (), this\<lparr>calls := calls this @ [spread [] args]\<rparr>))"

text \<open>
  \<^verbatim>\<open>preprocess\<close> and \<^verbatim>\<open>postprocess\<close>: the validation is commented out in the source,
  what is left is the trace and the return.
\<close>

definition preprocess :: "('c, 's) Step \<Rightarrow> 'v obj \<Rightarrow> 'v obj" where
  "preprocess this ins = ins"

definition postprocess :: "('c, 's) Step \<Rightarrow> 'v obj \<Rightarrow> 'v obj \<Rightarrow> 'v obj" where
  "postprocess this ins outs = spread (spread [] ins) outs"

text \<open>
  The members that an object literal inherits from \<^verbatim>\<open>Object.prototype\<close>, each with the
  string it becomes when it is used as a property key. The functions print as Node.js
  prints a native function; \<^verbatim>\<open>__proto__\<close> is an accessor and reads as the prototype
  object. Every one of these values is truthy.
\<close>

definition native_function :: "string \<Rightarrow> string" where
  "native_function nm = ''function '' @ nm @ ''() { [native code] }''"

definition object_prototype_member :: "string \<Rightarrow> string option" where
  "object_prototype_member key =
     (if key = ''constructor'' then Some (native_function ''Object'')
      else if key = ''__proto__'' then Some ''[object Object]''
      else if key \<in> set [''__defineGetter__'', ''__defineSetter__'', ''hasOwnProperty'',
                          ''__lookupGetter__'', ''__lookupSetter__'', ''isPrototypeOf'',
                          ''propertyIsEnumerable'', ''toString'', ''valueOf'',
                          ''toLocaleString'']
      then Some (native_function key)
      else None)"

text \<open>
  \<^verbatim>\<open>this.outputMap[key]\<close>: the target name of the own entry for the key when the map
  has one, else the member that the map inherits under that name, else \<^verbatim>\<open>undefined\<close>.
  The output map is an ordinary object, whose prototype is \<^verbatim>\<open>Object.prototype\<close>.
\<close>

datatype outputMap_value = NoEntry | Target string | Member string

definition get_outputMap :: "string obj \<Rightarrow> string \<Rightarrow> outputMap_value" where
  "get_outputMap om key =
     (case map_of om key of
        Some target \<Rightarrow> Target target
      | None \<Rightarrow>
          (case object_prototype_member key of
             Some printed \<Rightarrow> Member printed
           | None \<Rightarrow> NoEntry))"

fun truthy :: "outputMap_value \<Rightarrow> bool" where
  "truthy NoEntry = False"
| "truthy (Target target) = (target \<noteq> [])"
| "truthy (Member printed) = True"

fun property_key :: "outputMap_value \<Rightarrow> string" where
  "property_key NoEntry = ''undefined''"
| "property_key (Target target) = target"
| "property_key (Member printed) = printed"

text \<open>
  \<^verbatim>\<open>mapped[k] = v\<close>, an assignment. Under the name \<^verbatim>\<open>__proto__\<close> it reaches the setter
  that the record inherits from \<^verbatim>\<open>Object.prototype\<close>, unless the record has an own entry
  of that name: the setter creates no own entry. The prototype that the record may get
  from the setter is not part of a record. Under every other name the assignment creates
  or overwrites an own entry: the inherited members are writable data properties.
\<close>

definition assign_prop :: "string \<Rightarrow> 'v \<Rightarrow> 'v obj \<Rightarrow> 'v obj" where
  "assign_prop k v ps =
     (if k = ''__proto__'' \<and> \<not> has_key ps k then ps else set_prop k v ps)"

text \<open>
  \<^verbatim>\<open>mapOutputs\<close>. The test \<^verbatim>\<open>if (this.outputMap[key])\<close> is a test for truthiness: it
  fails when the map has no entry for the key, own or inherited, and also when the target
  name is the empty string.
\<close>

fun mapOutputs_loop :: "string obj \<Rightarrow> 'v obj \<Rightarrow> 'v obj \<Rightarrow> 'v obj" where
  "mapOutputs_loop om [] mapped = mapped"
| "mapOutputs_loop om ((key, val) # rest) mapped =
     (if truthy (get_outputMap om key)
      then mapOutputs_loop om rest (assign_prop (property_key (get_outputMap om key)) val mapped)
      else mapOutputs_loop om rest (assign_prop key val mapped))"

definition mapOutputs :: "('c, 's) Step \<Rightarrow> 'v obj \<Rightarrow> 'v obj" where
  "mapOutputs this outs =
     (case outputMap this of
        None \<Rightarrow> outs
      | Some om \<Rightarrow> mapOutputs_loop om outs [])"

text \<open>
  \<^verbatim>\<open>run\<close>. The abstract method \<^verbatim>\<open>_run\<close> is the parameter \<open>impl_run\<close>: given the
  arguments (the sibling steps, of an opaque type, and the preprocessed inputs) it returns
  an output record (\<^verbatim>\<open>StepOutput\<close>) or throws, and it does not touch the fields of the
  base class. The \<^verbatim>\<open>await\<close> is the case distinction on its outcome.
\<close>

definition run ::
  "(('st, 'v) RunStepArgs \<Rightarrow> 'e + 'v obj) \<Rightarrow> ('v obj, 's) Step \<Rightarrow> ('st, 'v) RunStepArgs
     \<Rightarrow> ('e error + 'v obj) \<times> ('v obj, 's) Step" where
  "run impl_run this args =
     (case recordCall [(''inputs'', inputs args)] False this of
        (Inl e, this1) \<Rightarrow> (Inl e, this1)
      | (Inr _, this1) \<Rightarrow>
          (let ins = preprocess this1 (inputs args) in
           case impl_run (args\<lparr>inputs := ins\<rparr>) of
             Inl e \<Rightarrow> (Inl (Thrown e), this1)
           | Inr outs \<Rightarrow>
               (let mappedOutputs = mapOutputs this1 outs in
                case recordCall [(''outputs'', mappedOutputs)] True this1 of
                  (Inl e, this2) \<Rightarrow> (Inl e, this2)
                | (Inr _, this2) \<Rightarrow> (Inr (postprocess this2 ins mappedOutputs), this2))))"

text \<open>
  \<^verbatim>\<open>run\<close> is asynchronous: it runs up to \<^verbatim>\<open>await this._run(...)\<close>, where it is
  suspended, and goes on when the outcome of the delegated computation is there. The two
  parts, for callers that start an invocation before an earlier one has finished:
  \<open>run_start\<close> returns the arguments handed to \<^verbatim>\<open>_run\<close>, \<open>run_resume\<close> takes the
  effective inputs and the outcome.
\<close>

definition run_start ::
  "('v obj, 's) Step \<Rightarrow> ('st, 'v) RunStepArgs
     \<Rightarrow> ('e error + ('st, 'v) RunStepArgs) \<times> ('v obj, 's) Step" where
  "run_start this args =
     (case recordCall [(''inputs'', inputs args)] False this of
        (Inl e, this1) \<Rightarrow> (Inl e, this1)
      | (Inr _, this1) \<Rightarrow>
          (let ins = preprocess this1 (inputs args) in (Inr (args\<lparr>inputs := ins\<rparr>), this1)))"

definition run_resume ::
  "('v obj, 's) Step \<Rightarrow> 'v obj \<Rightarrow> 'e + 'v obj \<Rightarrow> ('e error + 'v obj) \<times> ('v obj, 's) Step" where
  "run_resume this1 ins outcome =
     (case outcome of
        Inl e \<Rightarrow> (Inl (Thrown e), this1)
      | Inr outs \<Rightarrow>
          (let mappedOutputs = mapOutputs this1 outs in
           case recordCall [(''outputs'', mappedOutputs)] True this1 of
             (Inl e, this2) \<Rightarrow> (Inl e, this2)
           | (Inr _, this2) \<Rightarrow> (Inr (postprocess this2 ins mappedOutputs), this2)))"

text \<open>
  \<^verbatim>\<open>serialize\<close>. The abstract method \<^verbatim>\<open>_serialize\<close> is the parameter
  \<open>impl_serialize\<close>, the object it returns. The guard \<^verbatim>\<open>if (!this.calls)\<close> tests the
  array itself, and an array is truthy whatever its length; reading index \<open>-1\<close> of an
  empty array gives \<^verbatim>\<open>undefined\<close>.
\<close>

datatype ('c, 'm) serialized = Undefined | Call "'c obj" | Meta 'm

definition truthy_array :: "'a list \<Rightarrow> bool" where
  "truthy_array xs = True"

definition serialize ::
  "'m obj \<Rightarrow> ('c, 's) Step \<Rightarrow> ('c, 'm) serialized obj \<times> ('c, 's) Step" where
  "serialize impl_serialize this =
     (if \<not> truthy_array (calls this) then ([], this)
      else
        (let call = (if length (calls this) = 0 then Undefined
                     else Call (calls this ! (length (calls this) - 1)))
         in (spread (spread [] [(''call'', call)]) (map (\<lambda>(k, m). (k, Meta m)) impl_serialize),
             this)))"

text \<open>
  A caller that invokes \<^verbatim>\<open>run\<close> several times in a row on the same step, awaiting
  each invocation before the next, and stops at the first one that throws.
\<close>

fun runs ::
  "(('st, 'v) RunStepArgs \<Rightarrow> 'e + 'v obj) \<Rightarrow> ('v obj, 's) Step \<Rightarrow> ('st, 'v) RunStepArgs list
     \<Rightarrow> ('e error + 'v obj list) \<times> ('v obj, 's) Step" where
  "runs impl_run this [] = (Inr [], this)"
| "runs impl_run this (args # rest) =
     (case run impl_run this args of
        (Inl e, this') \<Rightarrow> (Inl e, this')
      | (Inr result, this') \<Rightarrow>
          (case runs impl_run this' rest of
             (Inl e, this'') \<Rightarrow> (Inl e, this'')
           | (Inr results, this'') \<Rightarrow> (Inr (result # results), this'')))"

section \<open>The reference definition of the output remapping\<close>

text \<open>
  The remapping in the words of the specification, on records read as maps from keys to
  values: without an output map the record is returned as it is; with one, the keys of
  the delegated output are visited in iteration order and each value is written under the
  target name that the map declares for its key, or under the key itself when the map
  declares none, a later write replacing an earlier one.
\<close>

definition target_spec :: "string obj \<Rightarrow> string \<Rightarrow> string" where
  "target_spec om key = (case map_of om key of Some target \<Rightarrow> target | None \<Rightarrow> key)"

definition mapOutputs_spec :: "string obj option \<Rightarrow> 'v obj \<Rightarrow> (string \<rightharpoonup> 'v)" where
  "mapOutputs_spec outputMap_opt outs =
     (case outputMap_opt of
        None \<Rightarrow> map_of outs
      | Some om \<Rightarrow> fold (\<lambda>(key, val) mapped. mapped(target_spec om key \<mapsto> val)) outs Map.empty)"

text \<open>
  The same reference definition, where only a non-empty target name counts as declared.
\<close>

definition target_nonempty :: "string obj \<Rightarrow> string \<Rightarrow> string" where
  "target_nonempty om key =
     (case map_of om key of
        Some target \<Rightarrow> (if target \<noteq> [] then target else key)
      | None \<Rightarrow> key)"

definition mapOutputs_nonempty :: "string obj option \<Rightarrow> 'v obj \<Rightarrow> (string \<rightharpoonup> 'v)" where
  "mapOutputs_nonempty outputMap_opt outs =
     (case outputMap_opt of
        None \<Rightarrow> map_of outs
      | Some om \<Rightarrow>
          fold (\<lambda>(key, val) mapped. mapped(target_nonempty om key \<mapsto> val)) outs Map.empty)"

text \<open>
  The keys on which the inherited members play no part: the key has an own entry in the
  output map or names no member of \<^verbatim>\<open>Object.prototype\<close>, and its value is not written
  under \<^verbatim>\<open>__proto__\<close>.
\<close>

definition plain_key :: "string obj \<Rightarrow> string \<Rightarrow> bool" where
  "plain_key om key =
     ((has_key om key \<or> object_prototype_member key = None)
      \<and> target_nonempty om key \<noteq> ''__proto__'')"

definition plain_outputs :: "string obj option \<Rightarrow> 'v obj \<Rightarrow> bool" where
  "plain_outputs outputMap_opt outs =
     (case outputMap_opt of
        None \<Rightarrow> True
      | Some om \<Rightarrow> list_all (\<lambda>(key, val). plain_key om key) outs)"

section \<open>Properties of records\<close>

lemma keys_overwrite: "map fst (overwrite k v ps) = map fst ps"
  by (induction ps) auto

lemma map_of_overwrite:
  "map_of (overwrite k v ps) = (if k \<in> set (map fst ps) then (map_of ps)(k \<mapsto> v) else map_of ps)"
proof (induction ps)
  case Nil
  then show ?case by simp
next
  case (Cons p ps)
  obtain k' v' where p: "p = (k', v')" by (cases p)
  show ?case
  proof (cases "k' = k")
    case True
    with p show ?thesis by (simp add: fun_eq_iff)
  next
    case False
    with p Cons show ?thesis by (simp add: fun_eq_iff)
  qed
qed

lemma keys_insert_index: "fst ` set (insert_index k v ps) = insert k (fst ` set ps)"
proof (induction ps)
  case Nil
  then show ?case by simp
next
  case (Cons p ps)
  obtain k' v' where p: "p = (k', v')" by (cases p)
  show ?case unfolding p
    by (cases "is_array_index k' \<and> numeric_value k' < numeric_value k")
       (simp_all add: Cons.IH insert_commute)
qed

lemma map_of_insert_index:
  "k \<notin> set (map fst ps) \<Longrightarrow> map_of (insert_index k v ps) = (map_of ps)(k \<mapsto> v)"
proof (induction ps)
  case Nil
  then show ?case by simp
next
  case (Cons p ps)
  obtain k' v' where p: "p = (k', v')" by (cases p)
  from Cons.prems p have ne: "k' \<noteq> k" and notin: "k \<notin> set (map fst ps)" by auto
  from Cons.IH [OF notin] p ne show ?case by (simp add: fun_eq_iff)
qed

lemma distinct_insert_index:
  "distinct (map fst ps) \<Longrightarrow> k \<notin> set (map fst ps) \<Longrightarrow> distinct (map fst (insert_index k v ps))"
proof (induction ps)
  case Nil
  then show ?case by simp
next
  case (Cons p ps)
  obtain k' v' where p: "p = (k', v')" by (cases p)
  from Cons.prems p have d: "distinct (map fst ps)" and notin: "k \<notin> set (map fst ps)"
    and ne: "k' \<noteq> k" and k': "k' \<notin> set (map fst ps)"
    by auto
  have "k' \<notin> fst ` set (insert_index k v ps)"
    using ne k' by (simp add: keys_insert_index)
  with Cons.IH [OF d notin] Cons.prems p show ?case by simp
qed

lemma keys_set_prop: "fst ` set (set_prop k v ps) = insert k (fst ` set ps)"
proof -
  have "fst ` set (overwrite k v ps) = fst ` set ps"
    using keys_overwrite [of k v ps] by (metis set_map)
  then show ?thesis
    by (simp add: set_prop_def has_key_def keys_insert_index insert_absorb)
qed

lemma map_of_set_prop: "map_of (set_prop k v ps) = (map_of ps)(k \<mapsto> v)"
proof (cases "k \<in> set (map fst ps)")
  case True
  then show ?thesis
    using map_of_overwrite [of k v ps] by (simp add: set_prop_def has_key_def)
next
  case False
  then have none: "map_of ps k = None"
    by (simp add: map_of_eq_None_iff)
  have "map_of (ps @ [(k, v)]) = (map_of ps)(k \<mapsto> v)"
    using none by (auto simp: fun_eq_iff map_add_def split: option.splits)
  with False show ?thesis
    using map_of_insert_index [of k ps v] by (simp add: set_prop_def has_key_def)
qed

lemma wf_set_prop: "wf_obj ps \<Longrightarrow> wf_obj (set_prop k v ps)"
  using distinct_insert_index [of ps k v]
  by (simp add: wf_obj_def set_prop_def has_key_def keys_overwrite)

lemma keys_spread:
  "fst ` set (spread target source) = fst ` set target \<union> fst ` set source"
  unfolding spread_def
proof (induction source arbitrary: target)
  case Nil
  then show ?case by simp
next
  case (Cons p source)
  obtain k v where p: "p = (k, v)" by (cases p)
  show ?case
    using Cons.IH [of "set_prop k v target"] keys_set_prop [of k v target] p by simp
qed

lemma wf_spread: "wf_obj target \<Longrightarrow> wf_obj (spread target source)"
  unfolding spread_def
  by (induction source arbitrary: target) (auto simp: wf_set_prop)

lemma map_of_spread:
  "wf_obj source \<Longrightarrow> map_of (spread target source) = map_of target ++ map_of source"
  unfolding spread_def wf_obj_def
proof (induction source arbitrary: target)
  case Nil
  then show ?case by simp
next
  case (Cons p source)
  obtain k v where p: "p = (k, v)" by (cases p)
  from Cons.prems p have notin: "map_of source k = None" and d: "distinct (map fst source)"
    by (auto simp: map_of_eq_None_iff)
  have "map_of (fold (\<lambda>(k, v). set_prop k v) source (set_prop k v target))
          = (map_of target)(k \<mapsto> v) ++ map_of source"
    using Cons.IH [OF d, of "set_prop k v target"] by (simp only: map_of_set_prop)
  also have "\<dots> = map_of target ++ map_of ((k, v) # source)"
    using notin by (auto simp: fun_eq_iff map_add_def split: option.splits)
  finally have "map_of (fold (\<lambda>(k, v). set_prop k v) source (set_prop k v target))
          = map_of target ++ map_of ((k, v) # source)" .
  then show ?case unfolding p by (simp only: fold_simps case_prod_conv)
qed

lemma spread_empty_single: "spread [] [(k, v)] = [(k, v)]"
  by (simp add: spread_def set_prop_def has_key_def)

lemma not_index_inputs: "\<not> is_array_index ''inputs''" "\<not> is_array_index ''outputs''" "\<not> is_array_index ''call''"
  by (simp_all add: is_array_index_def is_digit_def)

lemma call_with_outputs:
  "spread [(''inputs'', x)] [(''outputs'', y)] = [(''inputs'', x), (''outputs'', y)]"
  by (simp add: spread_def set_prop_def has_key_def not_index_inputs)

section \<open>Properties of the step methods\<close>

lemma mapOutputs_calls [simp]: "mapOutputs (this\<lparr>calls := c\<rparr>) outs = mapOutputs this outs"
  by (simp add: mapOutputs_def)

lemma run_success:
  "impl_run args = Inr outs \<Longrightarrow>
     run impl_run this args
       = (Inr (spread (spread [] (inputs args)) (mapOutputs this outs)),
          this\<lparr>calls := calls this @ [[(''inputs'', inputs args), (''outputs'', mapOutputs this outs)]]\<rparr>)"
  by (simp add: run_def recordCall_def preprocess_def postprocess_def spread_empty_single
      call_with_outputs nth_append Let_def)

lemma run_failure:
  "impl_run args = Inl e \<Longrightarrow>
     run impl_run this args
       = (Inl (Thrown e), this\<lparr>calls := calls this @ [[(''inputs'', inputs args)]]\<rparr>)"
  by (simp add: run_def recordCall_def preprocess_def spread_empty_single)

lemma run_in_two_parts:
  "run impl_run this args
     = (case run_start this args of
          (Inl e, this1) \<Rightarrow> (Inl e, this1)
        | (Inr args', this1) \<Rightarrow> run_resume this1 (inputs args') (impl_run args'))"
  by (simp add: run_def run_start_def run_resume_def recordCall_def Let_def)

lemma wf_assign_prop: "wf_obj ps \<Longrightarrow> wf_obj (assign_prop k v ps)"
  by (simp add: assign_prop_def wf_set_prop)

lemma plain_key_write:
  assumes "plain_key om key"
  shows "(if truthy (get_outputMap om key) then property_key (get_outputMap om key) else key)
           = target_nonempty om key"
    and "target_nonempty om key \<noteq> ''__proto__''"
proof -
  from assms have own: "has_key om key \<or> object_prototype_member key = None"
    and np: "target_nonempty om key \<noteq> ''__proto__''"
    by (simp_all add: plain_key_def)
  show "target_nonempty om key \<noteq> ''__proto__''" by (rule np)
  show "(if truthy (get_outputMap om key) then property_key (get_outputMap om key) else key)
           = target_nonempty om key"
  proof (cases "map_of om key")
    case None
    then have "\<not> has_key om key"
      by (simp add: has_key_def map_of_eq_None_iff)
    with own have "object_prototype_member key = None" by simp
    with None show ?thesis
      by (simp add: get_outputMap_def target_nonempty_def)
  next
    case (Some target)
    then show ?thesis
      by (simp add: get_outputMap_def target_nonempty_def)
  qed
qed

lemma map_of_mapOutputs_loop:
  "list_all (\<lambda>(key, val). plain_key om key) outs \<Longrightarrow>
   map_of (mapOutputs_loop om outs mapped)
     = fold (\<lambda>(key, val) m. m(target_nonempty om key \<mapsto> val)) outs (map_of mapped)"
proof (induction outs arbitrary: mapped)
  case Nil
  then show ?case by simp
next
  case (Cons p outs)
  obtain key val where p: "p = (key, val)" by (cases p)
  from Cons.prems p have here: "plain_key om key"
    and rest: "list_all (\<lambda>(key, val). plain_key om key) outs"
    by simp_all
  let ?k = "target_nonempty om key"
  let ?w = "if truthy (get_outputMap om key) then property_key (get_outputMap om key) else key"
  have w: "?w = ?k" and np: "?k \<noteq> ''__proto__''"
    using plain_key_write [OF here] by simp_all
  have "mapOutputs_loop om ((key, val) # outs) mapped
          = mapOutputs_loop om outs (assign_prop ?w val mapped)"
    by simp
  also have "assign_prop ?w val mapped = set_prop ?k val mapped"
    unfolding w using np by (simp add: assign_prop_def)
  finally have step: "mapOutputs_loop om ((key, val) # outs) mapped
                = mapOutputs_loop om outs (set_prop ?k val mapped)" .
  show ?case unfolding p step
    by (simp add: Cons.IH [OF rest] map_of_set_prop)
qed

lemma wf_mapOutputs_loop: "wf_obj mapped \<Longrightarrow> wf_obj (mapOutputs_loop om outs mapped)"
proof (induction outs arbitrary: mapped)
  case Nil
  then show ?case by simp
next
  case (Cons p outs)
  obtain key val where p: "p = (key, val)" by (cases p)
  show ?case unfolding p
    using Cons.prems by (simp add: Cons.IH wf_assign_prop)
qed

lemma mapOutputs_loop_cong:
  "(\<And>k. k \<in> fst ` set outs \<Longrightarrow> map_of om k = map_of om' k) \<Longrightarrow>
     mapOutputs_loop om outs mapped = mapOutputs_loop om' outs mapped"
proof (induction outs arbitrary: mapped)
  case Nil
  then show ?case by simp
next
  case (Cons p outs)
  obtain key val where p: "p = (key, val)" by (cases p)
  have "map_of om key = map_of om' key"
    using Cons.prems [of key] p by simp
  then have here: "get_outputMap om key = get_outputMap om' key"
    by (simp add: get_outputMap_def)
  have rest: "\<And>m. mapOutputs_loop om outs m = mapOutputs_loop om' outs m"
    using Cons.prems p by (intro Cons.IH) simp
  show ?case unfolding p
    by (simp add: here rest)
qed

lemma fold_rename_miss:
  "y \<notin> f ` fst ` set outs \<Longrightarrow>
     fold (\<lambda>(key, val) m. m(f key \<mapsto> val)) outs m0 y = m0 y"
proof (induction outs arbitrary: m0)
  case Nil
  then show ?case by simp
next
  case (Cons p outs)
  obtain key val where p: "p = (key, val)" by (cases p)
  from Cons.prems p have ne: "y \<noteq> f key" and rest: "y \<notin> f ` fst ` set outs"
    by auto
  have "fold (\<lambda>(key, val) m. m(f key \<mapsto> val)) outs (m0(f key \<mapsto> val)) y
          = (m0(f key \<mapsto> val)) y"
    by (rule Cons.IH [OF rest])
  also have "\<dots> = m0 y"
    using ne by simp
  finally show ?case unfolding p by (simp only: fold_simps case_prod_conv comp_apply)
qed

lemma fold_rename_hit:
  "distinct (map fst outs) \<Longrightarrow> inj_on f (fst ` set outs) \<Longrightarrow> map_of outs k = Some v \<Longrightarrow>
     fold (\<lambda>(key, val) m. m(f key \<mapsto> val)) outs m0 (f k) = Some v"
proof (induction outs arbitrary: m0)
  case Nil
  then show ?case by simp
next
  case (Cons p outs)
  obtain key val where p: "p = (key, val)" by (cases p)
  from Cons.prems p have d: "distinct (map fst outs)" and notin: "key \<notin> fst ` set outs"
    and inj: "inj_on f (fst ` set outs)"
    by (auto simp: inj_on_def)
  show ?case
  proof (cases "key = k")
    case True
    with Cons.prems p have v: "val = v" by simp
    have "f k \<notin> f ` fst ` set outs"
    proof
      assume "f k \<in> f ` fst ` set outs"
      then obtain k' where k': "k' \<in> fst ` set outs" and eq: "f k = f k'" by auto
      from Cons.prems(2) p True k' eq have "k = k'"
        by (auto simp: inj_on_def)
      with k' notin True show False by simp
    qed
    then have "fold (\<lambda>(key, val) m. m(f key \<mapsto> val)) outs (m0(f k \<mapsto> v)) (f k)
                 = (m0(f k \<mapsto> v)) (f k)"
      by (rule fold_rename_miss)
    also have "\<dots> = Some v"
      by simp
    finally show ?thesis unfolding p True v by (simp only: fold_simps case_prod_conv comp_apply)
  next
    case False
    with Cons.prems p have "map_of outs k = Some v" by simp
    then have "fold (\<lambda>(key, val) m. m(f key \<mapsto> val)) outs (m0(f key \<mapsto> val)) (f k)
                 = Some v"
      by (rule Cons.IH [OF d inj])
    then show ?thesis unfolding p by (simp only: fold_simps case_prod_conv comp_apply)
  qed
qed

lemma target_single:
  "target_nonempty [(a, x)] k = (if k = a \<and> x \<noteq> [] then x else k)"
  by (simp add: target_nonempty_def)

lemma runs_all_succeed:
  "\<forall>args\<in>set argss. \<exists>outs. impl_run args = Inr outs \<Longrightarrow>
     runs impl_run this argss
       = (Inr (map (\<lambda>a. spread (spread [] (inputs a)) (mapOutputs this (projr (impl_run a)))) argss),
          this\<lparr>calls := calls this
             @ map (\<lambda>a. [(''inputs'', inputs a),
                          (''outputs'', mapOutputs this (projr (impl_run a)))]) argss\<rparr>)"
proof (induction argss arbitrary: this)
  case Nil
  then show ?case by simp
next
  case (Cons args argss)
  from Cons.prems obtain outs where outs: "impl_run args = Inr outs" by auto
  from Cons.prems have rest: "\<forall>args\<in>set argss. \<exists>outs. impl_run args = Inr outs" by simp
  let ?this1 = "this\<lparr>calls := calls this
      @ [[(''inputs'', inputs args), (''outputs'', mapOutputs this outs)]]\<rparr>"
  have one: "run impl_run this args
               = (Inr (spread (spread [] (inputs args)) (mapOutputs this outs)), ?this1)"
    using outs by (rule run_success)
  show ?case
    by (simp add: one Cons.IH [OF rest, of ?this1] outs)
qed

lemma update_last_record:
  "xs \<noteq> [] \<Longrightarrow> xs[length xs - Suc 0 := c] = butlast xs @ [c]"
  by (cases xs rule: rev_cases) simp_all

lemma read_last_record:
  "xs \<noteq> [] \<Longrightarrow> xs ! (length xs - Suc 0) = last xs"
  by (cases xs rule: rev_cases) simp_all

lemma recordCall_append:
  "recordCall args False this = (Inr (), this\<lparr>calls := calls this @ [spread [] args]\<rparr>)"
  by (simp add: recordCall_def)

lemma recordCall_update:
  "calls this \<noteq> [] \<Longrightarrow>
     recordCall args True this
       = (Inr (), this\<lparr>calls := butlast (calls this)
                      @ [spread (spread [] (last (calls this))) args]\<rparr>)"
  by (simp add: recordCall_def Let_def update_last_record read_last_record)

lemma mapOutputs_schemas [simp]:
  "mapOutputs (this\<lparr>inputsSchema := si\<rparr>) outs = mapOutputs this outs"
  "mapOutputs (this\<lparr>outputsSchema := so\<rparr>) outs = mapOutputs this outs"
  by (simp_all add: mapOutputs_def)

section \<open>Call recording\<close>

text \<open>
  C6: on a step whose call history is empty, \<^verbatim>\<open>recordCall\<close> in update mode throws the
  error of the broken invariant at once, and the history stays empty.
\<close>

theorem recordCall_update_on_empty_history:
  "calls this = [] \<Longrightarrow>
     (case recordCall args True this of
        (r, this') \<Rightarrow>
          r = Inl (Error ''Cannot update last call, calls length is 0'')
          \<and> this' = this \<and> calls this' = [])"
  by (simp add: recordCall_def)

theorem recordCall_update_on_empty_history_witness:
  "calls (constructor ''greet'' None :: (nat obj, unit) Step) = []
   \<and> (recordCall [(''outputs'', [(''greeting'', 1)])] True (constructor ''greet'' None)
        :: (unit error + unit) \<times> (nat obj, unit) Step)
       = (Inl (Error ''Cannot update last call, calls length is 0''), constructor ''greet'' None)"
proof -
  have h: "calls (constructor ''greet'' None :: (nat obj, unit) Step) = []"
    by (simp add: constructor_def)
  from recordCall_update_on_empty_history [OF h] show ?thesis
    using h by (auto split: prod.splits)
qed

text \<open>
  C7: the call history is append-only. In append mode \<^verbatim>\<open>recordCall\<close> adds exactly one
  record, a copy of its argument, after the existing ones. In update mode on a history
  that is not empty it keeps the length and replaces the last record by the shallow merge
  of that record and the given fields, the given fields winning. In either mode the
  history does not get shorter and the records before the last stay where they are.
\<close>

theorem recordCall_history_is_append_only:
  fixes this :: "('c, 's) Step" and args :: "'c obj"
  shows "(recordCall args False this :: ('e error + unit) \<times> ('c, 's) Step)
           = (Inr (), this\<lparr>calls := calls this @ [spread [] args]\<rparr>)
         \<and> (wf_obj args \<longrightarrow> map_of (spread [] args) = map_of args)
         \<and> (calls this \<noteq> [] \<longrightarrow>
              (recordCall args True this :: ('e error + unit) \<times> ('c, 's) Step)
                = (Inr (), this\<lparr>calls := butlast (calls this)
                               @ [spread (spread [] (last (calls this))) args]\<rparr>))
         \<and> (wf_obj args \<and> wf_obj (last (calls this)) \<longrightarrow>
              map_of (spread (spread [] (last (calls this))) args)
                = map_of (last (calls this)) ++ map_of args)
         \<and> length (calls this)
              \<le> length (calls (snd (recordCall args updatePrev this
                                       :: ('e error + unit) \<times> ('c, 's) Step)))
         \<and> take (length (calls this) - 1)
              (calls (snd (recordCall args updatePrev this
                             :: ('e error + unit) \<times> ('c, 's) Step)))
             = take (length (calls this) - 1) (calls this)"
proof -
  have copy: "\<And>ps :: 'c obj. wf_obj ps \<Longrightarrow> map_of (spread [] ps) = map_of ps"
  proof -
    fix ps :: "'c obj" assume "wf_obj ps"
    from map_of_spread [OF this, of "[]"] show "map_of (spread [] ps) = map_of ps" by simp
  qed
  have merge: "wf_obj args \<and> wf_obj (last (calls this)) \<longrightarrow>
              map_of (spread (spread [] (last (calls this))) args)
                = map_of (last (calls this)) ++ map_of args"
  proof
    assume h: "wf_obj args \<and> wf_obj (last (calls this))"
    then have "map_of (spread (spread [] (last (calls this))) args)
                 = map_of (spread [] (last (calls this))) ++ map_of args"
      by (simp add: map_of_spread)
    with h show "map_of (spread (spread [] (last (calls this))) args)
                = map_of (last (calls this)) ++ map_of args"
      by (simp add: copy)
  qed
  have len: "length (calls this)
              \<le> length (calls (snd (recordCall args updatePrev this
                                       :: ('e error + unit) \<times> ('c, 's) Step)))"
    by (simp add: recordCall_def Let_def)
  have keep: "take (length (calls this) - 1)
              (calls (snd (recordCall args updatePrev this
                             :: ('e error + unit) \<times> ('c, 's) Step)))
             = take (length (calls this) - 1) (calls this)"
    by (simp add: recordCall_def Let_def)
  have app: "(recordCall args False this :: ('e error + unit) \<times> ('c, 's) Step)
           = (Inr (), this\<lparr>calls := calls this @ [spread [] args]\<rparr>)"
    by (rule recordCall_append)
  have cp: "wf_obj args \<longrightarrow> map_of (spread [] args) = map_of args"
    using copy by simp
  have upd: "calls this \<noteq> [] \<longrightarrow>
              (recordCall args True this :: ('e error + unit) \<times> ('c, 's) Step)
                = (Inr (), this\<lparr>calls := butlast (calls this)
                               @ [spread (spread [] (last (calls this))) args]\<rparr>)"
    by (simp add: recordCall_update)
  from app cp upd merge len keep show ?thesis
    by (intro conjI)
qed


theorem recordCall_history_is_append_only_witness:
  "calls ((constructor ''greet'' None :: (nat, unit) Step)\<lparr>calls := [[(''inputs'', 1)]]\<rparr>) \<noteq> []
   \<and> wf_obj [(''outputs'', 2 :: nat)]
   \<and> wf_obj (last (calls ((constructor ''greet'' None :: (nat, unit) Step)\<lparr>calls := [[(''inputs'', 1)]]\<rparr>)))
   \<and> (recordCall [(''outputs'', 2)] True
         ((constructor ''greet'' None :: (nat, unit) Step)\<lparr>calls := [[(''inputs'', 1)]]\<rparr>)
        :: (unit error + unit) \<times> (nat, unit) Step)
       = (Inr (), (constructor ''greet'' None)\<lparr>calls := [[(''inputs'', 1), (''outputs'', 2)]]\<rparr>)
   \<and> map_of (spread (spread [] [(''inputs'', 1 :: nat)]) [(''outputs'', 2)])
       = map_of [(''inputs'', 1)] ++ map_of [(''outputs'', 2)]"
proof -
  let ?step = "(constructor ''greet'' None :: (nat, unit) Step)\<lparr>calls := [[(''inputs'', 1)]]\<rparr>"
  let ?args = "[(''outputs'', 2 :: nat)]"
  have h1: "calls ?step \<noteq> []"
    by simp
  have h2: "wf_obj ?args"
    by (simp add: wf_obj_def)
  have h3: "wf_obj (last (calls ?step))"
    by (simp add: wf_obj_def)
  have l: "last (calls ?step) = [(''inputs'', 1)]" and b: "butlast (calls ?step) = []"
    by simp_all
  note T = recordCall_history_is_append_only [of ?args ?step True, where ?'e = unit]
  have u: "(recordCall ?args True ?step :: (unit error + unit) \<times> (nat, unit) Step)
             = (Inr (), ?step\<lparr>calls := butlast (calls ?step)
                    @ [spread (spread [] (last (calls ?step))) ?args]\<rparr>)"
    using T h1 by blast
  have m: "map_of (spread (spread [] (last (calls ?step))) ?args)
             = map_of (last (calls ?step)) ++ map_of ?args"
    using T h2 h3 by blast
  have s: "spread (spread [] [(''inputs'', 1 :: nat)]) [(''outputs'', 2)]
             = [(''inputs'', 1), (''outputs'', 2)]"
    by (simp add: spread_empty_single call_with_outputs)
  from u m h1 h2 h3 show ?thesis
    unfolding l b s by simp
qed

section \<open>The result of an invocation\<close>

text \<open>
  C1: when the delegated computation returns, \<^verbatim>\<open>run\<close> returns the shallow merge of the
  effective input record and the mapped output record. The keys of the result are the
  keys of the inputs together with the keys of the mapped outputs, a key of both has the
  value of the outputs, and every input key is a key of the result. Without an output
  map the result is the merge of the inputs and the raw delegated outputs.
\<close>

theorem run_result_is_merge:
  assumes ok: "impl_run args = Inr outs"
    and wi: "wf_obj (inputs args)"
    and wo: "wf_obj outs"
  shows "\<exists>result this'.
           run impl_run this args = (Inr result, this')
           \<and> result = postprocess this (preprocess this (inputs args)) (mapOutputs this outs)
           \<and> fst ` set result = fst ` set (inputs args) \<union> fst ` set (mapOutputs this outs)
           \<and> map_of result = map_of (inputs args) ++ map_of (mapOutputs this outs)
           \<and> fst ` set (inputs args) \<subseteq> fst ` set result
           \<and> (outputMap this = None \<longrightarrow>
                 result = spread (spread [] (inputs args)) outs
                 \<and> map_of result = map_of (inputs args) ++ map_of outs)"
proof -
  let ?mapped = "mapOutputs this outs"
  let ?result = "spread (spread [] (inputs args)) ?mapped"
  have wm: "wf_obj ?mapped"
  proof (cases "outputMap this")
    case None
    with wo show ?thesis by (simp add: mapOutputs_def)
  next
    case (Some om)
    have "wf_obj (mapOutputs_loop om outs [])"
      by (rule wf_mapOutputs_loop) (simp add: wf_obj_def)
    with Some show ?thesis by (simp add: mapOutputs_def)
  qed
  have copy: "map_of (spread [] (inputs args)) = map_of (inputs args)"
    using map_of_spread [OF wi, of "[]"] by simp
  have keys: "fst ` set ?result = fst ` set (inputs args) \<union> fst ` set ?mapped"
    by (simp add: keys_spread)
  have look: "map_of ?result = map_of (inputs args) ++ map_of ?mapped"
    using map_of_spread [OF wm, of "spread [] (inputs args)"] copy by simp
  have none: "outputMap this = None \<Longrightarrow> ?mapped = outs"
    by (simp add: mapOutputs_def)
  have r: "run impl_run this args
          = (Inr ?result,
             this\<lparr>calls := calls this
                @ [[(''inputs'', inputs args), (''outputs'', ?mapped)]]\<rparr>)"
    using ok by (rule run_success)
  have post: "?result = postprocess this (preprocess this (inputs args)) ?mapped"
    by (simp add: postprocess_def preprocess_def)
  have sub: "fst ` set (inputs args) \<subseteq> fst ` set ?result"
    unfolding keys by (rule Un_upper1)
  have raw: "outputMap this = None \<longrightarrow>
        ?result = spread (spread [] (inputs args)) outs
        \<and> map_of ?result = map_of (inputs args) ++ map_of outs"
    using look none by auto
  from r post keys look sub raw show ?thesis
    by (intro exI conjI)
qed

theorem run_result_is_merge_witness:
  "wf_obj [(''name'', ''Ada'')] \<and> wf_obj [(''greeting'', ''Hello, Ada'')]
   \<and> (\<exists>this'. run (\<lambda>a. Inr [(''greeting'', ''Hello, Ada'')] :: unit + string obj)
          (constructor ''greet'' None :: (string obj, unit) Step)
          \<lparr>steps = (), inputs = [(''name'', ''Ada'')]\<rparr>
        = (Inr [(''name'', ''Ada''), (''greeting'', ''Hello, Ada'')], this'))"
proof -
  let ?impl = "\<lambda>a :: (unit, string) RunStepArgs. Inr [(''greeting'', ''Hello, Ada'')] :: unit + string obj"
  let ?args = "\<lparr>steps = (), inputs = [(''name'', ''Ada'')]\<rparr>"
  have h2: "wf_obj (inputs ?args)" by (simp add: wf_obj_def)
  have h3: "wf_obj [(''greeting'', ''Hello, Ada'')]" by (simp add: wf_obj_def)
  have m: "mapOutputs (constructor ''greet'' None :: (string obj, unit) Step)
             [(''greeting'', ''Hello, Ada'')] = [(''greeting'', ''Hello, Ada'')]"
    by (simp add: mapOutputs_def constructor_def)
  have p: "postprocess (constructor ''greet'' None :: (string obj, unit) Step)
             (preprocess (constructor ''greet'' None :: (string obj, unit) Step) [(''name'', ''Ada'')])
             [(''greeting'', ''Hello, Ada'')]
           = [(''name'', ''Ada''), (''greeting'', ''Hello, Ada'')]"
    by (simp add: postprocess_def preprocess_def spread_def set_prop_def has_key_def
        is_array_index_def is_digit_def)
  from run_result_is_merge [of ?impl ?args "[(''greeting'', ''Hello, Ada'')]"
      "constructor ''greet'' None :: (string obj, unit) Step", OF _ h2 h3]
  obtain result this' where
    "run ?impl (constructor ''greet'' None :: (string obj, unit) Step) ?args = (Inr result, this')"
    and "result = postprocess (constructor ''greet'' None :: (string obj, unit) Step)
           (preprocess (constructor ''greet'' None :: (string obj, unit) Step) (inputs ?args))
           (mapOutputs (constructor ''greet'' None :: (string obj, unit) Step)
              [(''greeting'', ''Hello, Ada'')])"
    by auto
  with h2 h3 m p show ?thesis by simp
qed

section \<open>The output remapping\<close>

text \<open>
  C2, as the specification states it, fails on the code. An output map that declares the
  empty string as the target of \<open>a\<close> leaves the value under \<open>a\<close>, where the reference
  definition writes it under the empty string. With the output map \<open>{a: "x"}\<close> and
  delegated outputs that hold both \<open>a\<close> and, after it, \<open>x\<close>, the mapped output holds
  under \<open>x\<close> the value of \<open>x\<close>, not the value of \<open>a\<close>. With the same map a delegated output
  key \<open>constructor\<close>, which the map does not declare, does not pass through: the map
  inherits a member of that name, and the value is written under the text of that
  function. And a value whose declared target is \<open>__proto__\<close> is not in the mapped output
  at all.
\<close>

theorem mapOutputs_spec_counterexample:
  "mapOutputs (constructor ''step'' (Some [(''a'', [])]) :: (nat obj, unit) Step) [(''a'', 1 :: nat)]
     = [(''a'', 1)]
   \<and> mapOutputs_spec (Some [(''a'', [])]) [(''a'', 1 :: nat)] ''a'' = None
   \<and> mapOutputs_spec (Some [(''a'', [])]) [(''a'', 1 :: nat)] [] = Some 1
   \<and> map_of (mapOutputs (constructor ''step'' (Some [(''a'', [])]) :: (nat obj, unit) Step)
         [(''a'', 1 :: nat)])
       \<noteq> mapOutputs_spec (Some [(''a'', [])]) [(''a'', 1 :: nat)]
   \<and> mapOutputs (constructor ''step'' (Some [(''a'', ''x'')]) :: (nat obj, unit) Step)
         [(''a'', 1 :: nat), (''x'', 2)]
     = [(''x'', 2)]
   \<and> mapOutputs (constructor ''step'' (Some [(''a'', ''x'')]) :: (nat obj, unit) Step)
         [(''constructor'', 1 :: nat)]
     = [(''function Object() { [native code] }'', 1)]
   \<and> mapOutputs_spec (Some [(''a'', ''x'')]) [(''constructor'', 1 :: nat)] ''constructor'' = Some 1
   \<and> mapOutputs (constructor ''step'' (Some [(''a'', ''__proto__'')]) :: (nat obj, unit) Step)
         [(''a'', 1 :: nat), (''b'', 2)]
     = [(''b'', 2)]
   \<and> mapOutputs_spec (Some [(''a'', ''__proto__'')]) [(''a'', 1 :: nat), (''b'', 2)] ''__proto__''
     = Some 1"
proof -
  note defs = mapOutputs_def constructor_def get_outputMap_def object_prototype_member_def
    native_function_def assign_prop_def set_prop_def has_key_def is_array_index_def is_digit_def
  have a: "mapOutputs (constructor ''step'' (Some [(''a'', [])]) :: (nat obj, unit) Step)
             [(''a'', 1 :: nat)] = [(''a'', 1)]"
    by (simp add: defs)
  have b: "mapOutputs_spec (Some [(''a'', [])]) [(''a'', 1 :: nat)] ''a'' = None"
    by (simp add: mapOutputs_spec_def target_spec_def)
  have c: "mapOutputs_spec (Some [(''a'', [])]) [(''a'', 1 :: nat)] [] = Some 1"
    by (simp add: mapOutputs_spec_def target_spec_def)
  have d: "map_of (mapOutputs (constructor ''step'' (Some [(''a'', [])]) :: (nat obj, unit) Step)
         [(''a'', 1 :: nat)])
       \<noteq> mapOutputs_spec (Some [(''a'', [])]) [(''a'', 1 :: nat)]"
  proof
    assume "map_of (mapOutputs (constructor ''step'' (Some [(''a'', [])]) :: (nat obj, unit) Step)
         [(''a'', 1 :: nat)])
       = mapOutputs_spec (Some [(''a'', [])]) [(''a'', 1 :: nat)]"
    then have "map_of [(''a'', 1 :: nat)] ''a''
                 = mapOutputs_spec (Some [(''a'', [])]) [(''a'', 1 :: nat)] ''a''"
      by (simp only: a)
    with b show False by simp
  qed
  have e: "mapOutputs (constructor ''step'' (Some [(''a'', ''x'')]) :: (nat obj, unit) Step)
         [(''a'', 1 :: nat), (''x'', 2)] = [(''x'', 2)]"
    by (simp add: defs)
  have f: "mapOutputs (constructor ''step'' (Some [(''a'', ''x'')]) :: (nat obj, unit) Step)
         [(''constructor'', 1 :: nat)]
     = [(''function Object() { [native code] }'', 1)]"
    by (simp add: defs)
  have g: "mapOutputs_spec (Some [(''a'', ''x'')]) [(''constructor'', 1 :: nat)] ''constructor''
             = Some 1"
    by (simp add: mapOutputs_spec_def target_spec_def)
  have h: "mapOutputs (constructor ''step'' (Some [(''a'', ''__proto__'')]) :: (nat obj, unit) Step)
         [(''a'', 1 :: nat), (''b'', 2)]
     = [(''b'', 2)]"
    by (simp add: defs)
  have i: "mapOutputs_spec (Some [(''a'', ''__proto__'')]) [(''a'', 1 :: nat), (''b'', 2)]
             ''__proto__'' = Some 1"
    by (simp add: mapOutputs_spec_def target_spec_def)
  from a b c d e f g h i show ?thesis by (intro conjI)
qed

text \<open>
  C2, amended. Take delegated outputs in which no key without a declaration in the output
  map names a member of \<^verbatim>\<open>Object.prototype\<close> and no value is to be written under
  \<^verbatim>\<open>__proto__\<close>. On them \<^verbatim>\<open>mapOutputs\<close> equals the reference definition in which only
  a non-empty target name counts as declared (an empty target name leaves the key as it
  is), and later writes win. Without an output map the delegated output is returned
  unchanged; a declaration for a key that the delegated output does not have changes
  nothing. For the output map \<open>{a: "x"}\<close> with \<open>x\<close> non-empty and such delegated
  outputs, which hold \<open>a\<close> and do not hold \<open>x\<close> as another key: the mapped output holds
  the value of \<open>a\<close> under \<open>x\<close>, does not hold \<open>a\<close> unless \<open>x = a\<close>, and every other key of
  the delegated output keeps its value.
\<close>

theorem mapOutputs_refines_reference_for_nonempty_targets:
  "(plain_outputs (outputMap this) outs \<longrightarrow>
      map_of (mapOutputs this outs) = mapOutputs_nonempty (outputMap this) outs)
   \<and> (outputMap this = None \<longrightarrow> mapOutputs this outs = outs)
   \<and> (outputMap this = Some om \<and> \<not> has_key outs k \<longrightarrow>
        mapOutputs (this\<lparr>outputMap := Some ((k, t) # om)\<rparr>) outs = mapOutputs this outs)
   \<and> (outputMap this = Some [(a, x)] \<and> x \<noteq> [] \<and> wf_obj outs \<and> map_of outs a = Some v
        \<and> (x = a \<or> \<not> has_key outs x) \<and> plain_outputs (Some [(a, x)]) outs \<longrightarrow>
        map_of (mapOutputs this outs) x = Some v
        \<and> (x \<noteq> a \<longrightarrow> map_of (mapOutputs this outs) a = None)
        \<and> (\<forall>k'. k' \<noteq> a \<and> has_key outs k' \<longrightarrow>
              map_of (mapOutputs this outs) k' = map_of outs k'))"
proof -
  have A: "plain_outputs (outputMap this) outs \<longrightarrow>
      map_of (mapOutputs this outs) = mapOutputs_nonempty (outputMap this) outs"
    by (cases "outputMap this")
       (simp_all add: mapOutputs_def mapOutputs_nonempty_def plain_outputs_def
          map_of_mapOutputs_loop)
  have B: "outputMap this = None \<longrightarrow> mapOutputs this outs = outs"
    by (simp add: mapOutputs_def)
  have C: "outputMap this = Some om \<and> \<not> has_key outs k \<longrightarrow>
        mapOutputs (this\<lparr>outputMap := Some ((k, t) # om)\<rparr>) outs = mapOutputs this outs"
  proof
    assume h: "outputMap this = Some om \<and> \<not> has_key outs k"
    have "mapOutputs_loop ((k, t) # om) outs [] = mapOutputs_loop om outs []"
    proof (rule mapOutputs_loop_cong)
      fix k' assume "k' \<in> fst ` set outs"
      with h have "k' \<noteq> k" by (auto simp: has_key_def)
      then show "map_of ((k, t) # om) k' = map_of om k'" by simp
    qed
    with h show "mapOutputs (this\<lparr>outputMap := Some ((k, t) # om)\<rparr>) outs = mapOutputs this outs"
      by (simp add: mapOutputs_def)
  qed
  have D: "outputMap this = Some [(a, x)] \<and> x \<noteq> [] \<and> wf_obj outs \<and> map_of outs a = Some v
        \<and> (x = a \<or> \<not> has_key outs x) \<and> plain_outputs (Some [(a, x)]) outs \<longrightarrow>
        map_of (mapOutputs this outs) x = Some v
        \<and> (x \<noteq> a \<longrightarrow> map_of (mapOutputs this outs) a = None)
        \<and> (\<forall>k'. k' \<noteq> a \<and> has_key outs k' \<longrightarrow>
              map_of (mapOutputs this outs) k' = map_of outs k')"
  proof
    assume h: "outputMap this = Some [(a, x)] \<and> x \<noteq> [] \<and> wf_obj outs \<and> map_of outs a = Some v
        \<and> (x = a \<or> \<not> has_key outs x) \<and> plain_outputs (Some [(a, x)]) outs"
    let ?f = "target_nonempty [(a, x)]"
    let ?m = "fold (\<lambda>(key, val) m. m(?f key \<mapsto> val)) outs Map.empty"
    from h have om: "outputMap this = Some [(a, x)]" and x: "x \<noteq> []"
      and d: "distinct (map fst outs)" and av: "map_of outs a = Some v"
      and free: "x = a \<or> x \<notin> fst ` set outs"
      and plain: "plain_outputs (outputMap this) outs"
      by (simp_all add: wf_obj_def has_key_def)
    have m: "map_of (mapOutputs this outs) = ?m"
      using A om plain by (simp add: mapOutputs_nonempty_def)
    have fa: "?f a = x" and fk: "\<And>k'. k' \<noteq> a \<Longrightarrow> ?f k' = k'"
      using x by (simp_all add: target_single)
    have inj: "inj_on ?f (fst ` set outs)"
    proof (rule inj_onI)
      fix p q assume p: "p \<in> fst ` set outs" and q: "q \<in> fst ` set outs" and eq: "?f p = ?f q"
      show "p = q"
      proof (cases "p = a")
        case True
        show ?thesis
        proof (cases "q = a")
          case True
          with \<open>p = a\<close> show ?thesis by simp
        next
          case False
          with eq True fa fk [of q] have "x = q" by simp
          with q free False True show ?thesis by auto
        qed
      next
        case False
        show ?thesis
        proof (cases "q = a")
          case True
          with eq False fa fk [of p] have "p = x" by simp
          with p free False True show ?thesis by auto
        next
          case qa: False
          with eq False fk [of p] fk [of q] show ?thesis by simp
        qed
      qed
    qed
    have hit: "\<And>k' w. map_of outs k' = Some w \<Longrightarrow> ?m (?f k') = Some w"
      by (rule fold_rename_hit [OF d inj])
    have one: "map_of (mapOutputs this outs) x = Some v"
      using hit [OF av] fa m by simp
    have two: "x \<noteq> a \<longrightarrow> map_of (mapOutputs this outs) a = None"
    proof
      assume ne: "x \<noteq> a"
      have "a \<notin> ?f ` fst ` set outs"
      proof
        assume "a \<in> ?f ` fst ` set outs"
        then obtain k' where "a = ?f k'" by auto
        with ne fa fk [of k'] show False by (cases "k' = a") auto
      qed
      then have "?m a = Map.empty a"
        by (rule fold_rename_miss)
      with m show "map_of (mapOutputs this outs) a = None" by simp
    qed
    have three: "\<forall>k'. k' \<noteq> a \<and> has_key outs k' \<longrightarrow>
              map_of (mapOutputs this outs) k' = map_of outs k'"
    proof (intro allI impI)
      fix k' assume k': "k' \<noteq> a \<and> has_key outs k'"
      then obtain w where w: "map_of outs k' = Some w"
        by (cases "map_of outs k'") (auto simp: has_key_def map_of_eq_None_iff)
      from hit [OF w] fk [of k'] k' m w
      show "map_of (mapOutputs this outs) k' = map_of outs k'" by simp
    qed
    from one two three
    show "map_of (mapOutputs this outs) x = Some v
        \<and> (x \<noteq> a \<longrightarrow> map_of (mapOutputs this outs) a = None)
        \<and> (\<forall>k'. k' \<noteq> a \<and> has_key outs k' \<longrightarrow>
              map_of (mapOutputs this outs) k' = map_of outs k')"
      by (intro conjI)
  qed
  from A B C D show ?thesis by (intro conjI)
qed

theorem mapOutputs_refines_reference_for_nonempty_targets_witness:
  "outputMap (constructor ''greet'' (Some [(''greeting'', ''message'')]) :: (nat obj, unit) Step)
     = Some [(''greeting'', ''message'')]
   \<and> ''message'' \<noteq> [] \<and> wf_obj [(''greeting'', ''Hello, Ada''), (''lang'', ''en'')]
   \<and> map_of [(''greeting'', ''Hello, Ada''), (''lang'', ''en'')] ''greeting'' = Some ''Hello, Ada''
   \<and> \<not> has_key [(''greeting'', ''Hello, Ada''), (''lang'', ''en'')] ''message''
   \<and> \<not> has_key [(''greeting'', ''Hello, Ada''), (''lang'', ''en'')] ''mood''
   \<and> plain_outputs (Some [(''greeting'', ''message'')])
        [(''greeting'', ''Hello, Ada''), (''lang'', ''en'')]
   \<and> ''lang'' \<noteq> ''greeting'' \<and> has_key [(''greeting'', ''Hello, Ada''), (''lang'', ''en'')] ''lang''
   \<and> map_of (mapOutputs (constructor ''greet'' (Some [(''greeting'', ''message'')]) :: (nat obj, unit) Step)
         [(''greeting'', ''Hello, Ada''), (''lang'', ''en'')])
       = mapOutputs_nonempty (Some [(''greeting'', ''message'')])
           [(''greeting'', ''Hello, Ada''), (''lang'', ''en'')]
   \<and> map_of (mapOutputs (constructor ''greet'' (Some [(''greeting'', ''message'')]) :: (nat obj, unit) Step)
         [(''greeting'', ''Hello, Ada''), (''lang'', ''en'')]) ''message'' = Some ''Hello, Ada''
   \<and> map_of (mapOutputs (constructor ''greet'' (Some [(''greeting'', ''message'')]) :: (nat obj, unit) Step)
         [(''greeting'', ''Hello, Ada''), (''lang'', ''en'')]) ''greeting'' = None
   \<and> map_of (mapOutputs (constructor ''greet'' (Some [(''greeting'', ''message'')]) :: (nat obj, unit) Step)
         [(''greeting'', ''Hello, Ada''), (''lang'', ''en'')]) ''lang'' = Some ''en''
   \<and> mapOutputs ((constructor ''greet'' (Some [(''greeting'', ''message'')]) :: (nat obj, unit) Step)
         \<lparr>outputMap := Some [(''mood'', ''tone''), (''greeting'', ''message'')]\<rparr>)
         [(''greeting'', ''Hello, Ada''), (''lang'', ''en'')]
       = mapOutputs (constructor ''greet'' (Some [(''greeting'', ''message'')]) :: (nat obj, unit) Step)
         [(''greeting'', ''Hello, Ada''), (''lang'', ''en'')]"
proof -
  let ?step = "constructor ''greet'' (Some [(''greeting'', ''message'')]) :: (nat obj, unit) Step"
  let ?outs = "[(''greeting'', ''Hello, Ada''), (''lang'', ''en'')]"
  have h1: "outputMap ?step = Some [(''greeting'', ''message'')]"
    by (simp add: constructor_def)
  have h2: "wf_obj ?outs"
    by (simp add: wf_obj_def)
  have h3: "map_of ?outs ''greeting'' = Some ''Hello, Ada''"
    by simp
  have h4: "\<not> has_key ?outs ''message''"
    by (simp add: has_key_def)
  have h5: "\<not> has_key ?outs ''mood''"
    by (simp add: has_key_def)
  have h6: "has_key ?outs ''lang''"
    by (simp add: has_key_def)
  have h7: "plain_outputs (Some [(''greeting'', ''message'')]) ?outs"
    by (simp add: plain_outputs_def plain_key_def has_key_def object_prototype_member_def
        target_nonempty_def)
  have h0: "''message'' \<noteq> []"
    by simp
  note T = mapOutputs_refines_reference_for_nonempty_targets
    [of ?step ?outs "[(''greeting'', ''message'')]" "''mood''" "''tone''" "''greeting''"
      "''message''" "''Hello, Ada''"]
  have r: "map_of (mapOutputs ?step ?outs)
             = mapOutputs_nonempty (Some [(''greeting'', ''message'')]) ?outs"
    using T h1 h7 by simp
  have c: "mapOutputs (?step\<lparr>outputMap := Some [(''mood'', ''tone''), (''greeting'', ''message'')]\<rparr>)
             ?outs = mapOutputs ?step ?outs"
    using T h1 h5 by blast
  have d: "map_of (mapOutputs ?step ?outs) ''message'' = Some ''Hello, Ada''
           \<and> (''message'' \<noteq> ''greeting'' \<longrightarrow> map_of (mapOutputs ?step ?outs) ''greeting'' = None)
           \<and> (\<forall>k'. k' \<noteq> ''greeting'' \<and> has_key ?outs k' \<longrightarrow>
                 map_of (mapOutputs ?step ?outs) k' = map_of ?outs k')"
    using T h0 h1 h2 h3 h4 h7 by blast
  from d h6 have e: "map_of (mapOutputs ?step ?outs) ''lang'' = map_of ?outs ''lang''"
    by simp
  from d have d1: "map_of (mapOutputs ?step ?outs) ''message'' = Some ''Hello, Ada''"
    and d2: "map_of (mapOutputs ?step ?outs) ''greeting'' = None"
    by simp_all
  from e have e1: "map_of (mapOutputs ?step ?outs) ''lang'' = Some ''en''"
    by simp
  have n: "''lang'' \<noteq> ''greeting''"
    by simp
  from h1 h0 h2 h3 h4 h5 h7 n h6 r d1 d2 e1 c show ?thesis
    by (intro conjI)
qed

section \<open>Serialization\<close>

text \<open>
  C3: on a step without recorded calls \<^verbatim>\<open>serialize\<close> is meant to return an empty
  structure. The guard of the source tests the array and not its length, so it never
  fires: on a fresh step \<^verbatim>\<open>serialize\<close> returns an object with the key \<^verbatim>\<open>call\<close> bound
  to \<^verbatim>\<open>undefined\<close>, followed by whatever \<^verbatim>\<open>_serialize\<close> returns.
\<close>

theorem serialize_without_calls_is_not_empty:
  "serialize [(''kind'', 7 :: nat)] (constructor ''greet'' None :: (nat obj, unit) Step)
     = ([(''call'', Undefined), (''kind'', Meta 7)], constructor ''greet'' None)
   \<and> serialize ([] :: nat obj) (constructor ''greet'' None :: (nat obj, unit) Step)
     = ([(''call'', Undefined)], constructor ''greet'' None)
   \<and> fst (serialize ([] :: nat obj) (constructor ''greet'' None :: (nat obj, unit) Step)) \<noteq> []"
proof -
  have kind: "\<not> is_array_index ''kind''"
    by (simp add: is_array_index_def is_digit_def)
  show ?thesis
    by (simp add: serialize_def truthy_array_def constructor_def spread_def set_prop_def
        has_key_def not_index_inputs kind)
qed

section \<open>The call history\<close>

text \<open>
  C4, as the specification states it, fails on the code: \<^verbatim>\<open>run\<close> patches the last record
  of the history, whichever invocation appended it. Two invocations on a fresh step, the
  second started while the first is suspended at its \<^verbatim>\<open>await\<close>: both return their
  results, the history has two records, and the first record has no \<^verbatim>\<open>outputs\<close>, the
  second having been patched twice.
\<close>

theorem overlapping_runs_counterexample:
  "(run_start (constructor ''echo'' None :: (nat obj, unit) Step)
       \<lparr>steps = (), inputs = [(''n'', 1)]\<rparr>
      :: (unit error + (unit, nat) RunStepArgs) \<times> (nat obj, unit) Step)
     = (Inr \<lparr>steps = (), inputs = [(''n'', 1)]\<rparr>,
        (constructor ''echo'' None)\<lparr>calls := [[(''inputs'', [(''n'', 1)])]]\<rparr>)
   \<and> (run_start ((constructor ''echo'' None :: (nat obj, unit) Step)
          \<lparr>calls := [[(''inputs'', [(''n'', 1)])]]\<rparr>)
       \<lparr>steps = (), inputs = [(''n'', 2)]\<rparr>
      :: (unit error + (unit, nat) RunStepArgs) \<times> (nat obj, unit) Step)
     = (Inr \<lparr>steps = (), inputs = [(''n'', 2)]\<rparr>,
        (constructor ''echo'' None)
          \<lparr>calls := [[(''inputs'', [(''n'', 1)])], [(''inputs'', [(''n'', 2)])]]\<rparr>)
   \<and> (run_resume ((constructor ''echo'' None :: (nat obj, unit) Step)
          \<lparr>calls := [[(''inputs'', [(''n'', 1)])], [(''inputs'', [(''n'', 2)])]]\<rparr>)
       [(''n'', 1)] (Inr [(''r'', 10)])
      :: (unit error + nat obj) \<times> (nat obj, unit) Step)
     = (Inr [(''n'', 1), (''r'', 10)],
        (constructor ''echo'' None)
          \<lparr>calls := [[(''inputs'', [(''n'', 1)])],
                      [(''inputs'', [(''n'', 2)]), (''outputs'', [(''r'', 10)])]]\<rparr>)
   \<and> (run_resume ((constructor ''echo'' None :: (nat obj, unit) Step)
          \<lparr>calls := [[(''inputs'', [(''n'', 1)])],
                      [(''inputs'', [(''n'', 2)]), (''outputs'', [(''r'', 10)])]]\<rparr>)
       [(''n'', 2)] (Inr [(''r'', 20)])
      :: (unit error + nat obj) \<times> (nat obj, unit) Step)
     = (Inr [(''n'', 2), (''r'', 20)],
        (constructor ''echo'' None)
          \<lparr>calls := [[(''inputs'', [(''n'', 1)])],
                      [(''inputs'', [(''n'', 2)]), (''outputs'', [(''r'', 20)])]]\<rparr>)
   \<and> \<not> has_key [(''inputs'', [(''n'', 1 :: nat)])] ''outputs''"
proof -
  have nr: "\<not> is_array_index ''n''" "\<not> is_array_index ''r''"
    by (simp_all add: is_array_index_def is_digit_def)
  note defs = run_start_def run_resume_def recordCall_def preprocess_def postprocess_def
    mapOutputs_def constructor_def Let_def spread_def set_prop_def has_key_def
    not_index_inputs nr
  have s1: "(run_start (constructor ''echo'' None :: (nat obj, unit) Step)
       \<lparr>steps = (), inputs = [(''n'', 1)]\<rparr>
      :: (unit error + (unit, nat) RunStepArgs) \<times> (nat obj, unit) Step)
     = (Inr \<lparr>steps = (), inputs = [(''n'', 1)]\<rparr>,
        (constructor ''echo'' None)\<lparr>calls := [[(''inputs'', [(''n'', 1)])]]\<rparr>)"
    by (simp add: defs)
  have s2: "(run_start ((constructor ''echo'' None :: (nat obj, unit) Step)
          \<lparr>calls := [[(''inputs'', [(''n'', 1)])]]\<rparr>)
       \<lparr>steps = (), inputs = [(''n'', 2)]\<rparr>
      :: (unit error + (unit, nat) RunStepArgs) \<times> (nat obj, unit) Step)
     = (Inr \<lparr>steps = (), inputs = [(''n'', 2)]\<rparr>,
        (constructor ''echo'' None)
          \<lparr>calls := [[(''inputs'', [(''n'', 1)])], [(''inputs'', [(''n'', 2)])]]\<rparr>)"
    by (simp add: defs)
  have r1: "(run_resume ((constructor ''echo'' None :: (nat obj, unit) Step)
          \<lparr>calls := [[(''inputs'', [(''n'', 1)])], [(''inputs'', [(''n'', 2)])]]\<rparr>)
       [(''n'', 1)] (Inr [(''r'', 10)])
      :: (unit error + nat obj) \<times> (nat obj, unit) Step)
     = (Inr [(''n'', 1), (''r'', 10)],
        (constructor ''echo'' None)
          \<lparr>calls := [[(''inputs'', [(''n'', 1)])],
                      [(''inputs'', [(''n'', 2)]), (''outputs'', [(''r'', 10)])]]\<rparr>)"
    by (simp add: defs)
  have r2: "(run_resume ((constructor ''echo'' None :: (nat obj, unit) Step)
          \<lparr>calls := [[(''inputs'', [(''n'', 1)])],
                      [(''inputs'', [(''n'', 2)]), (''outputs'', [(''r'', 10)])]]\<rparr>)
       [(''n'', 2)] (Inr [(''r'', 20)])
      :: (unit error + nat obj) \<times> (nat obj, unit) Step)
     = (Inr [(''n'', 2), (''r'', 20)],
        (constructor ''echo'' None)
          \<lparr>calls := [[(''inputs'', [(''n'', 1)])],
                      [(''inputs'', [(''n'', 2)]), (''outputs'', [(''r'', 20)])]]\<rparr>)"
    by (simp add: defs)
  have last: "\<not> has_key [(''inputs'', [(''n'', 1 :: nat)])] ''outputs''"
    by (simp add: has_key_def)
  from s1 s2 r1 r2 last show ?thesis by (intro conjI)
qed

text \<open>
  C4, amended: after \<open>N\<close> invocations of \<^verbatim>\<open>run\<close>, each finished before the next is
  started, whose delegated computation returns each time, every invocation has returned
  and the call history has grown by exactly \<open>N\<close> records, the older records unchanged; the
  record of the \<open>i\<close>-th invocation holds the raw input record under \<^verbatim>\<open>inputs\<close> and the
  mapped output record under \<^verbatim>\<open>outputs\<close>. On a step without earlier calls the history
  has exactly \<open>N\<close> records.
\<close>

theorem runs_record_every_invocation:
  assumes ok: "\<forall>args\<in>set argss. \<exists>outs. impl_run args = Inr outs"
  shows "\<exists>results this'.
           runs impl_run this argss = (Inr results, this')
           \<and> length (calls this') = length (calls this) + length argss
           \<and> take (length (calls this)) (calls this') = calls this
           \<and> (\<forall>i<length argss.
                 calls this' ! (length (calls this) + i)
                   = [(''inputs'', inputs (argss ! i)),
                      (''outputs'', mapOutputs this (projr (impl_run (argss ! i))))])
           \<and> (calls this = [] \<longrightarrow> length (calls this') = length argss)"
proof -
  let ?rec = "\<lambda>a. [(''inputs'', inputs a), (''outputs'', mapOutputs this (projr (impl_run a)))]"
  let ?this' = "this\<lparr>calls := calls this @ map ?rec argss\<rparr>"
  let ?results = "map (\<lambda>a. spread (spread [] (inputs a)) (mapOutputs this (projr (impl_run a)))) argss"
  have r: "runs impl_run this argss = (Inr ?results, ?this')"
    using ok by (rule runs_all_succeed)
  have l: "length (calls ?this') = length (calls this) + length argss"
    by simp
  have t: "take (length (calls this)) (calls ?this') = calls this"
    by simp
  have n: "\<forall>i<length argss. calls ?this' ! (length (calls this) + i) = ?rec (argss ! i)"
    by (simp add: nth_append)
  have f: "calls this = [] \<longrightarrow> length (calls ?this') = length argss"
    by simp
  from r l t n f show ?thesis
    by (intro exI conjI)
qed

theorem runs_record_every_invocation_witness:
  "(\<exists>outs. (\<lambda>a. Inr (inputs a) :: unit + string obj)
              \<lparr>steps = (), inputs = [(''name'', ''Ada'')]\<rparr> = Inr outs)
   \<and> (\<exists>outs. (\<lambda>a. Inr (inputs a) :: unit + string obj)
              \<lparr>steps = (), inputs = [(''name'', ''Bob'')]\<rparr> = Inr outs)
   \<and> (\<exists>results this'.
         runs (\<lambda>a. Inr (inputs a) :: unit + string obj)
           (constructor ''echo'' None :: (string obj, unit) Step)
           [\<lparr>steps = (), inputs = [(''name'', ''Ada'')]\<rparr>, \<lparr>steps = (), inputs = [(''name'', ''Bob'')]\<rparr>]
           = (Inr results, this')
         \<and> length (calls this') = 2
         \<and> calls this' ! 1 = [(''inputs'', [(''name'', ''Bob'')]), (''outputs'', [(''name'', ''Bob'')])])"
proof -
  let ?impl = "\<lambda>a :: (unit, string) RunStepArgs. Inr (inputs a) :: unit + string obj"
  let ?argss = "[\<lparr>steps = (), inputs = [(''name'', ''Ada'')]\<rparr>, \<lparr>steps = (), inputs = [(''name'', ''Bob'')]\<rparr>]"
  let ?step = "constructor ''echo'' None :: (string obj, unit) Step"
  have h: "\<forall>args\<in>set ?argss. \<exists>outs. ?impl args = Inr outs"
    by simp
  have e: "calls ?step = []"
    by (simp add: constructor_def)
  from runs_record_every_invocation [of ?argss ?impl ?step, OF h]
  obtain results this' where r: "runs ?impl ?step ?argss = (Inr results, this')"
    and l: "length (calls this') = length (calls ?step) + length ?argss"
    and n: "\<forall>i<length ?argss. calls this' ! (length (calls ?step) + i)
              = [(''inputs'', inputs (?argss ! i)),
                 (''outputs'', mapOutputs ?step (projr (?impl (?argss ! i))))]"
    by blast
  from n [THEN spec, of 1] have "calls this' ! (length (calls ?step) + 1)
              = [(''inputs'', inputs (?argss ! 1)),
                 (''outputs'', mapOutputs ?step (projr (?impl (?argss ! 1))))]"
    by simp
  then have n1: "calls this' ! 1 = [(''inputs'', [(''name'', ''Bob'')]), (''outputs'', [(''name'', ''Bob'')])]"
    by (simp add: e mapOutputs_def constructor_def)
  from l e have l2: "length (calls this') = 2"
    by simp
  from r l2 n1 have "\<exists>results this'.
         runs ?impl ?step ?argss = (Inr results, this')
         \<and> length (calls this') = 2
         \<and> calls this' ! 1 = [(''inputs'', [(''name'', ''Bob'')]), (''outputs'', [(''name'', ''Bob'')])]"
    by blast
  then show ?thesis
    by simp
qed



section \<open>Schemas\<close>

text \<open>
  C8: the schemas have no effect on \<^verbatim>\<open>run\<close>. Whatever the two schema fields hold,
  \<^verbatim>\<open>run\<close> returns or throws the same value and leaves the same call history, the
  step differing only in the schema fields it started with; so it is after attaching an
  input schema and an output schema with the setters. \<^verbatim>\<open>preprocess\<close> returns its
  argument and \<^verbatim>\<open>postprocess\<close> merges without validating.
\<close>

theorem schemas_do_not_affect_run:
  "run impl_run (this\<lparr>inputsSchema := si, outputsSchema := so\<rparr>) args
     = (fst (run impl_run this args),
        (snd (run impl_run this args))\<lparr>inputsSchema := si, outputsSchema := so\<rparr>)
   \<and> calls (snd (run impl_run (this\<lparr>inputsSchema := si, outputsSchema := so\<rparr>) args))
       = calls (snd (run impl_run this args))
   \<and> fst (run impl_run (fst (outputs_setter b (fst (inputs_setter a this)))) args)
       = fst (run impl_run this args)
   \<and> calls (snd (run impl_run (fst (outputs_setter b (fst (inputs_setter a this)))) args))
       = calls (snd (run impl_run this args))
   \<and> preprocess (this\<lparr>inputsSchema := si, outputsSchema := so\<rparr>) ins = ins
   \<and> postprocess (this\<lparr>inputsSchema := si, outputsSchema := so\<rparr>) ins outs
       = spread (spread [] ins) outs"
proof (cases "impl_run args")
  case (Inl e)
  then show ?thesis
    by (simp add: run_failure preprocess_def postprocess_def inputs_setter_def
        outputs_setter_def Let_def)
next
  case (Inr outs')
  then show ?thesis
    by (simp add: run_success preprocess_def postprocess_def inputs_setter_def
        outputs_setter_def Let_def)
qed

text \<open>
  C9: each of the two setters returns the step itself, with the schema stored; after two
  calls of the same setter the second schema is the one stored, and the step is the same
  as after the second call alone.
\<close>

theorem schema_setters_return_this_and_replace:
  "fst (inputs_setter schema this) = snd (inputs_setter schema this)
   \<and> snd (inputs_setter schema this) = this\<lparr>inputsSchema := Some schema\<rparr>
   \<and> fst (outputs_setter schema this) = snd (outputs_setter schema this)
   \<and> snd (outputs_setter schema this) = this\<lparr>outputsSchema := Some schema\<rparr>
   \<and> inputsSchema (fst (inputs_setter schema2 (fst (inputs_setter schema1 this)))) = Some schema2
   \<and> outputsSchema (fst (outputs_setter schema2 (fst (outputs_setter schema1 this)))) = Some schema2
   \<and> fst (inputs_setter schema2 (fst (inputs_setter schema1 this))) = fst (inputs_setter schema2 this)
   \<and> fst (outputs_setter schema2 (fst (outputs_setter schema1 this)))
       = fst (outputs_setter schema2 this)"
  by (simp add: inputs_setter_def outputs_setter_def Let_def)

section \<open>Serialization is read-only\<close>

text \<open>
  C10: \<^verbatim>\<open>serialize\<close> leaves the step as it was: name, output map, schemas and call
  history.
\<close>

theorem serialize_leaves_step_unchanged:
  "snd (serialize impl_serialize this) = this"
  by (simp add: serialize_def Let_def)

end
